theory Spec2Isabelle
  imports Main "HOL-Library.Word"
begin

section \<open>Data model (ll\_protocol.h)\<close>

text \<open>
  Bytes are \<open>uint8_t\<close>, sizes and loop counters are \<open>size_t\<close> (64 bits, unsigned,
  arithmetic wraps). A pointer argument is an \<open>option\<close>: \<open>None\<close> is the null pointer,
  \<open>Some xs\<close> points at a buffer whose contents are the list \<open>xs\<close> and whose capacity is
  \<open>length xs\<close>. An access beyond the capacity is undefined behaviour in C; the model
  makes it a \<open>fault\<close>.
\<close>

type_synonym uint8_t = "8 word"
type_synonym size_t = "64 word"

datatype ll_status_t =
    LL_STATUS_SUCCESS
  | LL_STATUS_BAD_PARAMS
  | LL_STATUS_NO_MESSAGE
  | LL_STATUS_NO_ENOUGH_BYTES
  | LL_STATUS_MESSAGE_TOO_SHORT
  | LL_STATUS_MESSAGE_TOO_LONG
  | LL_STATUS_ENUM_SIZE

text \<open>The field \<open>size\<close> of the C struct is called \<open>size_msg\<close> here.\<close>

record ll_message_info_t =
  size_msg :: size_t
  begin_byte :: uint8_t
  reject_byte :: uint8_t
  end_byte :: uint8_t

datatype fault = Out_Of_Bounds_Read | Out_Of_Bounds_Write

definition load :: "uint8_t list \<Rightarrow> nat \<Rightarrow> fault + uint8_t" where
  "load buf k = (if k < length buf then Inr (buf ! k) else Inl Out_Of_Bounds_Read)"

definition store :: "uint8_t list \<Rightarrow> nat \<Rightarrow> uint8_t \<Rightarrow> fault + uint8_t list" where
  "store buf k v = (if k < length buf then Inr (buf[k := v]) else Inl Out_Of_Bounds_Write)"

text \<open>The test that occurs in both encoder loops: the byte is one of the three control bytes.\<close>

definition is_control :: "ll_message_info_t \<Rightarrow> uint8_t \<Rightarrow> bool" where
  "is_control msg_info b \<longleftrightarrow>
     b = begin_byte msg_info \<or> b = end_byte msg_info \<or> b = reject_byte msg_info"

section \<open>ll\_sizeof\_serialized\<close>

function sizeof_loop ::
  "ll_message_info_t \<Rightarrow> uint8_t list \<Rightarrow> size_t \<Rightarrow> size_t \<Rightarrow> fault + size_t" where
  "sizeof_loop msg_info data i result =
     (if i < size_msg msg_info then
        (case load data (unat i) of
           Inl f \<Rightarrow> Inl f
         | Inr b \<Rightarrow>
             sizeof_loop msg_info data (i + 1)
               (if b = begin_byte msg_info \<or> b = end_byte msg_info \<or> b = reject_byte msg_info
                then result + 1 else result))
      else Inr result)"
  by pat_completeness auto
termination
  by (relation "measure (\<lambda>(m, d, i, r). unat (size_msg m) - unat i)")
     (simp, simp, unat_arith)

definition ll_sizeof_serialized ::
  "ll_message_info_t \<Rightarrow> uint8_t list option \<Rightarrow> fault + size_t" where
  "ll_sizeof_serialized msg_info data =
     (case data of
        None \<Rightarrow> Inr 0
      | Some d \<Rightarrow> sizeof_loop msg_info d 0 (size_msg msg_info + 2))"

section \<open>ll\_serialize\<close>

text \<open>
  \<open>tmp_out\<close> is a pointer into \<open>data_out\<close>; it is modelled by its offset from
  \<open>data_out\<close>. One iteration of the loop body writes one or two bytes.
\<close>

definition serialize_body ::
  "ll_message_info_t \<Rightarrow> uint8_t \<Rightarrow> uint8_t list \<times> nat \<Rightarrow> fault + uint8_t list \<times> nat" where
  "serialize_body msg_info b st =
     (case st of (out, tmp_out) \<Rightarrow>
        if b = begin_byte msg_info \<or> b = end_byte msg_info \<or> b = reject_byte msg_info
        then (case store out tmp_out (reject_byte msg_info) of
                Inl f \<Rightarrow> Inl f
              | Inr out1 \<Rightarrow>
                  (case store out1 (tmp_out + 1) b of
                     Inl f \<Rightarrow> Inl f
                   | Inr out2 \<Rightarrow> Inr (out2, tmp_out + 2)))
        else (case store out tmp_out b of
                Inl f \<Rightarrow> Inl f
              | Inr out1 \<Rightarrow> Inr (out1, tmp_out + 1)))"

function serialize_loop ::
  "ll_message_info_t \<Rightarrow> uint8_t list \<Rightarrow> size_t \<Rightarrow> uint8_t list \<times> nat
     \<Rightarrow> fault + uint8_t list \<times> nat" where
  "serialize_loop msg_info data_in i st =
     (if i < size_msg msg_info then
        (case load data_in (unat i) of
           Inl f \<Rightarrow> Inl f
         | Inr b \<Rightarrow>
             (case serialize_body msg_info b st of
                Inl f \<Rightarrow> Inl f
              | Inr st' \<Rightarrow> serialize_loop msg_info data_in (i + 1) st'))
      else Inr st)"
  by pat_completeness auto
termination
  by (relation "measure (\<lambda>(m, d, i, st). unat (size_msg m) - unat i)")
     (simp, simp, unat_arith)

text \<open>
  The result is the contents of \<open>data_out\<close> after the call (\<open>None\<close> for a null
  \<open>data_out\<close>).
\<close>

definition ll_serialize ::
  "ll_message_info_t \<Rightarrow> uint8_t list option \<Rightarrow> uint8_t list option
     \<Rightarrow> fault + uint8_t list option" where
  "ll_serialize msg_info data_in data_out =
     (case (data_in, data_out) of
        (Some d, Some out) \<Rightarrow>
          (case store out 0 (begin_byte msg_info) of
             Inl f \<Rightarrow> Inl f
           | Inr out1 \<Rightarrow>
               (case serialize_loop msg_info d 0 (out1, 1) of
                  Inl f \<Rightarrow> Inl f
                | Inr (out2, tmp_out) \<Rightarrow>
                    (case store out2 tmp_out (end_byte msg_info) of
                       Inl f \<Rightarrow> Inl f
                     | Inr out3 \<Rightarrow> Inr (Some out3))))
      | _ \<Rightarrow> Inr data_out)"

section \<open>ll\_deserialize\<close>

text \<open>
  The local variables of \<open>ll_deserialize\<close> together with the two objects it writes
  through pointers: the contents of \<open>data_out\<close> and the value of \<open>*remainder\<close>.
\<close>

record scan_state =
  message_opened :: bool
  reject :: bool
  ignore_previous :: bool
  message_iter :: size_t
  byte :: uint8_t
  previous_byte :: uint8_t
  data_out :: "uint8_t list"
  remainder :: size_t

text \<open>
  What one iteration of the \<open>for\<close> loop does: go on with the next byte (\<open>continue\<close> or
  the end of the body), leave the function with a status, or fault.
\<close>

datatype flow = Continue scan_state | Return ll_status_t scan_state | Trap fault

text \<open>\<open>data_out[message_iter++] = byte\<close>\<close>

definition write_byte :: "scan_state \<Rightarrow> fault + scan_state" where
  "write_byte s =
     (case store (data_out s) (unat (message_iter s)) (byte s) of
        Inl f \<Rightarrow> Inl f
      | Inr out \<Rightarrow> Inr (s\<lparr>data_out := out, message_iter := message_iter s + 1\<rparr>))"

text \<open>
  The first statements of the loop body: \<open>previous_byte = byte; byte = byte_stream[i];\<close>
  and the \<open>if\<close> that opens a frame at a \<open>begin_byte\<close> whose predecessor is not the
  \<open>reject_byte\<close>.
\<close>

definition fetch :: "ll_message_info_t \<Rightarrow> uint8_t \<Rightarrow> scan_state \<Rightarrow> scan_state" where
  "fetch msg_info b s0 =
     (let s1 = s0\<lparr>previous_byte := byte s0, byte := b\<rparr>
      in if \<not> message_opened s1 \<and> byte s1 = begin_byte msg_info
            \<and> previous_byte s1 \<noteq> reject_byte msg_info
         then s1\<lparr>message_opened := True\<rparr> else s1)"

text \<open>
  The body of the loop at index \<open>i\<close>, where \<open>b\<close> is \<open>byte_stream[i]\<close>. The branches
  come in the order of the source.
\<close>

definition loop_body ::
  "ll_message_info_t \<Rightarrow> size_t \<Rightarrow> size_t \<Rightarrow> uint8_t \<Rightarrow> scan_state \<Rightarrow> flow" where
  "loop_body msg_info byte_stream_size i b s0 =
     (let s = fetch msg_info b s0
      in
      if \<not> message_opened s then Continue s
      else if message_iter s = size_msg msg_info then
        (if byte s = end_byte msg_info then
           (if i = byte_stream_size - 1
            then Return LL_STATUS_SUCCESS (s\<lparr>message_opened := False, remainder := 0\<rparr>)
            else Return LL_STATUS_SUCCESS (s\<lparr>message_opened := False, remainder := i + 1\<rparr>))
         else Return LL_STATUS_MESSAGE_TOO_LONG (s\<lparr>message_opened := False, remainder := i\<rparr>))
      else if byte s = end_byte msg_info
              \<and> previous_byte s \<noteq> reject_byte msg_info
              \<and> \<not> ignore_previous s
              \<and> message_iter s < size_msg msg_info then
        Return LL_STATUS_MESSAGE_TOO_SHORT
          (s\<lparr>message_opened := False, reject := False, message_iter := 0, remainder := i + 1\<rparr>)
      else if (byte s \<noteq> reject_byte msg_info
                 \<and> byte s \<noteq> begin_byte msg_info
                 \<and> byte s \<noteq> end_byte msg_info
                 \<and> previous_byte s \<noteq> reject_byte msg_info)
              \<or>
              (byte s \<noteq> reject_byte msg_info
                 \<and> byte s \<noteq> begin_byte msg_info
                 \<and> byte s \<noteq> end_byte msg_info
                 \<and> ignore_previous s) then
        (case write_byte s of
           Inl f \<Rightarrow> Trap f
         | Inr s' \<Rightarrow> Continue (s'\<lparr>ignore_previous := False\<rparr>))
      else if reject s then
        (case write_byte s of
           Inl f \<Rightarrow> Trap f
         | Inr s' \<Rightarrow>
             Continue ((if byte s' = reject_byte msg_info
                        then s'\<lparr>ignore_previous := True\<rparr> else s')\<lparr>reject := False\<rparr>))
      else if byte s = reject_byte msg_info
              \<and> (previous_byte s \<noteq> reject_byte msg_info \<or> ignore_previous s) then
        Continue (let s' = s\<lparr>reject := True\<rparr>
                  in if ignore_previous s' then s'\<lparr>ignore_previous := False\<rparr> else s')
      else Continue s)"

text \<open>
  The loop from index \<open>i\<close> on, followed by the code after the loop. \<open>byte_stream\<close> is the
  buffer the pointer refers to, \<open>byte_stream_size\<close> the size the caller passes.
\<close>

function scan ::
  "ll_message_info_t \<Rightarrow> uint8_t list \<Rightarrow> size_t \<Rightarrow> size_t \<Rightarrow> scan_state
     \<Rightarrow> fault + ll_status_t \<times> scan_state" where
  "scan msg_info byte_stream byte_stream_size i s =
     (if i < byte_stream_size then
        (case load byte_stream (unat i) of
           Inl f \<Rightarrow> Inl f
         | Inr b \<Rightarrow>
             (case loop_body msg_info byte_stream_size i b s of
                Trap f \<Rightarrow> Inl f
              | Return status s' \<Rightarrow> Inr (status, s')
              | Continue s' \<Rightarrow> scan msg_info byte_stream byte_stream_size (i + 1) s'))
      else if message_opened s then
        Inr (LL_STATUS_NO_ENOUGH_BYTES,
             s\<lparr>remainder := byte_stream_size - message_iter s - 1\<rparr>)
      else
        Inr (LL_STATUS_NO_MESSAGE, s\<lparr>remainder := byte_stream_size\<rparr>))"
  by pat_completeness auto
termination
  by (relation "measure (\<lambda>(m, bs, n, i, s). unat n - unat i)")
     (simp, simp, unat_arith)

text \<open>The state after the declarations at the top of the function.\<close>

definition initial_state :: "ll_message_info_t \<Rightarrow> uint8_t list \<Rightarrow> scan_state" where
  "initial_state msg_info out =
     \<lparr>message_opened = False, reject = False, ignore_previous = False, message_iter = 0,
      byte = end_byte msg_info, previous_byte = end_byte msg_info,
      data_out = out, remainder = 0\<rparr>"

text \<open>
  The result is the status together with the contents of \<open>data_out\<close> and the value of
  \<open>*remainder\<close> after the call.
\<close>

definition ll_deserialize ::
  "ll_message_info_t \<Rightarrow> uint8_t list option \<Rightarrow> size_t \<Rightarrow> uint8_t list option
     \<Rightarrow> size_t option \<Rightarrow> fault + ll_status_t \<times> uint8_t list option \<times> size_t option" where
  "ll_deserialize msg_info byte_stream byte_stream_size data_out_ptr remainder_ptr =
     (case (byte_stream, data_out_ptr, remainder_ptr) of
        (Some bs, Some out, Some r) \<Rightarrow>
          (case scan msg_info bs byte_stream_size 0 (initial_state msg_info out) of
             Inl f \<Rightarrow> Inl f
           | Inr (status, s) \<Rightarrow> Inr (status, Some (data_out s), Some (remainder s)))
      | _ \<Rightarrow> Inr (LL_STATUS_BAD_PARAMS, data_out_ptr, remainder_ptr))"

text \<open>
  The state in which the loop starts iteration \<open>k\<close>, when the iterations before it have
  all gone on to the next byte (\<open>None\<close> when the function has left the loop before).
\<close>

fun state_at ::
  "ll_message_info_t \<Rightarrow> uint8_t list \<Rightarrow> size_t \<Rightarrow> scan_state \<Rightarrow> nat \<Rightarrow> scan_state option" where
  "state_at msg_info bs n s0 0 = Some s0"
| "state_at msg_info bs n s0 (Suc k) =
     (case state_at msg_info bs n s0 k of
        None \<Rightarrow> None
      | Some s \<Rightarrow>
          if k < unat n \<and> k < length bs then
            (case loop_body msg_info n (of_nat k) (bs ! k) s of
               Continue s' \<Rightarrow> Some s'
             | _ \<Rightarrow> None)
          else None)"

section \<open>The wire format, in the words of the specification\<close>

text \<open>
  The number of payload bytes that collide with a control byte, the escaped payload (every
  such byte preceded by one \<open>reject_byte\<close>), and the frame: \<open>begin_byte\<close>, the escaped
  payload, \<open>end_byte\<close>.
\<close>

definition count_control :: "ll_message_info_t \<Rightarrow> uint8_t list \<Rightarrow> nat" where
  "count_control msg_info P = length (filter (is_control msg_info) P)"

fun escape :: "ll_message_info_t \<Rightarrow> uint8_t list \<Rightarrow> uint8_t list" where
  "escape msg_info [] = []"
| "escape msg_info (b # P) =
     (if is_control msg_info b then reject_byte msg_info # b # escape msg_info P
      else b # escape msg_info P)"

definition frame :: "ll_message_info_t \<Rightarrow> uint8_t list \<Rightarrow> uint8_t list" where
  "frame msg_info P = begin_byte msg_info # escape msg_info P @ [end_byte msg_info]"

definition distinct_control :: "ll_message_info_t \<Rightarrow> bool" where
  "distinct_control msg_info \<longleftrightarrow>
     begin_byte msg_info \<noteq> end_byte msg_info \<and>
     begin_byte msg_info \<noteq> reject_byte msg_info \<and>
     end_byte msg_info \<noteq> reject_byte msg_info"

section \<open>Auxiliary notions for the proofs\<close>

text \<open>
  The loop over the bytes that are left of the window, as a recursion on that list; \<open>k\<close> is
  the index of its first byte.
\<close>

fun scan_list ::
  "ll_message_info_t \<Rightarrow> size_t \<Rightarrow> nat \<Rightarrow> uint8_t list \<Rightarrow> scan_state
     \<Rightarrow> fault + ll_status_t \<times> scan_state" where
  "scan_list msg_info n k [] s =
     (if message_opened s then
        Inr (LL_STATUS_NO_ENOUGH_BYTES, s\<lparr>remainder := n - message_iter s - 1\<rparr>)
      else Inr (LL_STATUS_NO_MESSAGE, s\<lparr>remainder := n\<rparr>))"
| "scan_list msg_info n k (b # bs) s =
     (case loop_body msg_info n (of_nat k) b s of
        Trap f \<Rightarrow> Inl f
      | Return status s' \<Rightarrow> Inr (status, s')
      | Continue s' \<Rightarrow> scan_list msg_info n (Suc k) bs s')"

text \<open>
  What holds of the local variables whenever the loop is about to start iteration \<open>k\<close>:
  outside a frame nothing has been counted and no escape is pending; inside a frame a
  \<open>reject_byte\<close> just read has either started an escape or been written as a literal;
  every payload byte written so far has used up one byte of the window after the opening
  delimiter; and the count never exceeds the message size.
\<close>

definition scan_inv :: "ll_message_info_t \<Rightarrow> nat \<Rightarrow> scan_state \<Rightarrow> bool" where
  "scan_inv msg_info k s \<longleftrightarrow>
     (\<not> message_opened s \<longrightarrow> \<not> reject s \<and> message_iter s = 0) \<and>
     (message_opened s \<longrightarrow> byte s = reject_byte msg_info \<longrightarrow> reject s \<or> ignore_previous s) \<and>
     (message_opened s \<longrightarrow> unat (message_iter s) < k) \<and>
     message_iter s \<le> size_msg msg_info"

text \<open>The buffer \<open>data_out\<close> keeps its capacity, and its bytes from \<open>size\<close> on are untouched.\<close>

definition buffer_inv :: "ll_message_info_t \<Rightarrow> uint8_t list \<Rightarrow> scan_state \<Rightarrow> bool" where
  "buffer_inv msg_info out0 s \<longleftrightarrow>
     length (data_out s) = length out0 \<and>
     drop (unat (size_msg msg_info)) (data_out s) = drop (unat (size_msg msg_info)) out0"

text \<open>
  The offset of the opening delimiter: the first iteration after which the scan is inside
  a frame, among the iterations before \<open>k\<close>.
\<close>

definition opened_after ::
  "ll_message_info_t \<Rightarrow> uint8_t list \<Rightarrow> size_t \<Rightarrow> uint8_t list \<Rightarrow> nat \<Rightarrow> bool" where
  "opened_after msg_info bs n out j =
     (case state_at msg_info bs n (initial_state msg_info out) (Suc j) of
        Some s \<Rightarrow> message_opened s
      | None \<Rightarrow> False)"

definition frame_start ::
  "ll_message_info_t \<Rightarrow> uint8_t list \<Rightarrow> size_t \<Rightarrow> uint8_t list \<Rightarrow> nat \<Rightarrow> nat option" where
  "frame_start msg_info bs n out k = find (opened_after msg_info bs n out) [0..<k]"

text \<open>The control bytes of the examples in the header file, for a message of \<open>sz\<close> bytes.\<close>

definition example_info :: "size_t \<Rightarrow> ll_message_info_t" where
  "example_info sz = \<lparr>size_msg = sz, begin_byte = 0xAA, reject_byte = 0xCC, end_byte = 0xBB\<rparr>"

section \<open>Facts about the scanner\<close>

declare scan.simps [simp del] sizeof_loop.simps [simp del] serialize_loop.simps [simp del]

subsection \<open>Counters\<close>

lemma unat_succ: "(i::size_t) < n \<Longrightarrow> unat (i + 1) = Suc (unat i)"
  by unat_arith

lemma unat_of_nat_below: "k < unat (n::size_t) \<Longrightarrow> unat (of_nat k :: size_t) = k"
  by (metis le_unat_uoi less_imp_le_nat)

lemma of_nat_below: "k < unat (n::size_t) \<Longrightarrow> (of_nat k :: size_t) < n"
  by (simp add: word_less_nat_alt unat_of_nat_below)

subsection \<open>The loop and its prefixes\<close>

lemma scan_Continue:
  assumes "k < unat n" "k < length bs"
    and "loop_body mi n (of_nat k) (bs ! k) s = Continue s'"
  shows "scan mi bs n (of_nat k) s = scan mi bs n (of_nat (Suc k)) s'"
  using assms
  by (subst scan.simps) (simp add: of_nat_below unat_of_nat_below load_def add.commute)

lemma scan_Return:
  assumes "k < unat n" "k < length bs"
    and "loop_body mi n (of_nat k) (bs ! k) s = Return st s'"
  shows "scan mi bs n (of_nat k) s = Inr (st, s')"
  using assms by (subst scan.simps) (simp add: of_nat_below unat_of_nat_below load_def)

lemma scan_Trap:
  assumes "k < unat n" "k < length bs"
    and "loop_body mi n (of_nat k) (bs ! k) s = Trap f"
  shows "scan mi bs n (of_nat k) s = Inl f"
  using assms by (subst scan.simps) (simp add: of_nat_below unat_of_nat_below load_def)

lemma scan_overrun:
  assumes "k < unat n" "length bs \<le> k"
  shows "scan mi bs n (of_nat k) s = Inl Out_Of_Bounds_Read"
  using assms by (subst scan.simps) (simp add: of_nat_below unat_of_nat_below load_def)

lemma scan_end:
  "scan mi bs n n s =
     (if message_opened s
      then Inr (LL_STATUS_NO_ENOUGH_BYTES, s\<lparr>remainder := n - message_iter s - 1\<rparr>)
      else Inr (LL_STATUS_NO_MESSAGE, s\<lparr>remainder := n\<rparr>))"
  by (subst scan.simps) simp

lemma scan_state_at:
  "state_at mi bs n s0 k = Some s \<Longrightarrow> scan mi bs n 0 s0 = scan mi bs n (of_nat k) s"
proof (induction k arbitrary: s)
  case 0
  then show ?case by simp
next
  case (Suc k)
  from Suc.prems obtain s1 where
    s1: "state_at mi bs n s0 k = Some s1" and kn: "k < unat n" and kl: "k < length bs"
    and body: "loop_body mi n (of_nat k) (bs ! k) s1 = Continue s"
    by (auto split: option.splits if_splits flow.splits)
  have "scan mi bs n 0 s0 = scan mi bs n (of_nat k) s1"
    using Suc.IH [OF s1] .
  also have "\<dots> = scan mi bs n (of_nat (Suc k)) s"
    using kn kl body by (rule scan_Continue)
  finally show ?case .
qed

lemma scan_scan_list:
  assumes "unat n \<le> length bs" and "k \<le> unat n"
  shows "scan mi bs n (of_nat k) s = scan_list mi n k (drop k (take (unat n) bs)) s"
  using assms(2)
proof (induction "unat n - k" arbitrary: k s)
  case 0
  then have "k = unat n" by simp
  then show ?case using assms(1) by (simp add: scan_end)
next
  case (Suc d)
  then have kn: "k < unat n" by simp
  with assms(1) have kl: "k < length bs" by simp
  have dr: "drop k (take (unat n) bs) = bs ! k # drop (Suc k) (take (unat n) bs)"
    using kn kl by (simp add: Cons_nth_drop_Suc [symmetric])
  have ih: "\<And>s'. scan mi bs n (of_nat (Suc k)) s' =
                 scan_list mi n (Suc k) (drop (Suc k) (take (unat n) bs)) s'"
    using Suc.hyps(1) [of "Suc k"] Suc.hyps(2) kn by simp
  show ?case
  proof (cases "loop_body mi n (of_nat k) (bs ! k) s")
    case (Continue s')
    then show ?thesis using scan_Continue [OF kn kl Continue] ih dr by simp
  next
    case (Return st s')
    then show ?thesis using scan_Return [OF kn kl Return] dr by simp
  next
    case (Trap f)
    then show ?thesis using scan_Trap [OF kn kl Trap] dr by simp
  qed
qed

subsection \<open>One iteration\<close>

lemma fetch_simps [simp]:
  "byte (fetch mi b s) = b"
  "previous_byte (fetch mi b s) = byte s"
  "message_opened (fetch mi b s) \<longleftrightarrow>
     message_opened s \<or> (b = begin_byte mi \<and> byte s \<noteq> reject_byte mi)"
  "reject (fetch mi b s) = reject s"
  "ignore_previous (fetch mi b s) = ignore_previous s"
  "message_iter (fetch mi b s) = message_iter s"
  "data_out (fetch mi b s) = data_out s"
  "remainder (fetch mi b s) = remainder s"
  by (auto simp: fetch_def Let_def)

lemma scan_inv_initial: "scan_inv mi 0 (initial_state mi out)"
  by (simp add: scan_inv_def initial_state_def)

lemma buffer_inv_initial: "buffer_inv mi out (initial_state mi out)"
  by (simp add: buffer_inv_def initial_state_def)

lemma scan_inv_less:
  assumes "scan_inv mi k s" and "message_iter s \<noteq> size_msg mi"
  shows "message_iter s < size_msg mi"
    and "unat (message_iter s + 1) = Suc (unat (message_iter s))"
    and "message_iter s + 1 \<le> size_msg mi"
    and "unat (message_iter s) < unat (size_msg mi)"
proof -
  show lt: "message_iter s < size_msg mi"
    using assms by (auto simp: scan_inv_def less_le)
  show "unat (message_iter s + 1) = Suc (unat (message_iter s))"
    using lt by (rule unat_succ)
  show "message_iter s + 1 \<le> size_msg mi"
    using lt by (rule inc_le)
  show "unat (message_iter s) < unat (size_msg mi)"
    using lt by (simp add: word_less_nat_alt)
qed

lemma scan_inv_body:
  assumes "scan_inv mi k s"
  shows "case loop_body mi n i b s of
           Continue s' \<Rightarrow> scan_inv mi (Suc k) s'
         | Return st s' \<Rightarrow> True
         | Trap f \<Rightarrow> True"
proof (cases "message_opened s")
  case True
  then show ?thesis
    using assms scan_inv_less(2,3) [OF assms]
    by (auto simp add: scan_inv_def loop_body_def Let_def write_byte_def store_def
             split: sum.splits)
next
  case False
  then show ?thesis
    using assms scan_inv_less(2,3) [OF assms]
    by (simp add: scan_inv_def loop_body_def Let_def write_byte_def store_def
             split: sum.splits)
qed

lemma scan_inv_Continue:
  "scan_inv mi k s \<Longrightarrow> loop_body mi n i b s = Continue s' \<Longrightarrow> scan_inv mi (Suc k) s'"
  using scan_inv_body [where mi=mi and k=k and s=s and n=n and i=i and b=b] by simp

lemma Return_body:
  "case loop_body mi n i b s of
     Continue s' \<Rightarrow> True
   | Return st s' \<Rightarrow>
       data_out s' = data_out s \<and>
       (remainder s' = 0 \<or> remainder s' = i \<or> remainder s' = i + 1) \<and>
       st \<in> {LL_STATUS_SUCCESS, LL_STATUS_MESSAGE_TOO_LONG, LL_STATUS_MESSAGE_TOO_SHORT}
   | Trap f \<Rightarrow> f = Out_Of_Bounds_Write"
  by (simp add: loop_body_def Let_def write_byte_def store_def split: sum.splits)

lemma Return_remainder:
  assumes "loop_body mi n i b s = Return st s'" and "i < n"
  shows "remainder s' \<le> n"
    and "st \<in> {LL_STATUS_SUCCESS, LL_STATUS_MESSAGE_TOO_LONG, LL_STATUS_MESSAGE_TOO_SHORT}"
    and "data_out s' = data_out s"
proof -
  have *: "data_out s' = data_out s \<and>
       (remainder s' = 0 \<or> remainder s' = i \<or> remainder s' = i + 1) \<and>
       st \<in> {LL_STATUS_SUCCESS, LL_STATUS_MESSAGE_TOO_LONG, LL_STATUS_MESSAGE_TOO_SHORT}"
    using Return_body [where mi=mi and n=n and i=i and b=b and s=s] assms(1) by simp
  then show "st \<in> {LL_STATUS_SUCCESS, LL_STATUS_MESSAGE_TOO_LONG, LL_STATUS_MESSAGE_TOO_SHORT}"
    and "data_out s' = data_out s" by simp_all
  from * have "remainder s' = 0 \<or> remainder s' = i \<or> remainder s' = i + 1" by simp
  then show "remainder s' \<le> n"
    using assms(2) by (auto simp: inc_le)
qed

lemma buffer_inv_body:
  assumes "scan_inv mi k s" and "buffer_inv mi out0 s" and "unat (size_msg mi) \<le> length out0"
  shows "case loop_body mi n i b s of
           Continue s' \<Rightarrow> buffer_inv mi out0 s'
         | Return st s' \<Rightarrow> buffer_inv mi out0 s'
         | Trap f \<Rightarrow> False"
proof -
  have "message_iter s \<noteq> size_msg mi \<Longrightarrow> unat (message_iter s) < length out0"
    using scan_inv_less(4) [OF assms(1)] assms(3) by simp
  moreover have "\<And>v. message_iter s \<noteq> size_msg mi \<Longrightarrow>
      drop (unat (size_msg mi)) ((data_out s)[unat (message_iter s) := v]) =
      drop (unat (size_msg mi)) (data_out s)"
    using scan_inv_less(4) [OF assms(1)] by simp
  ultimately show ?thesis
    using assms(2)
    by (simp add: buffer_inv_def loop_body_def Let_def write_byte_def store_def
             split: sum.splits)
qed

subsection \<open>The whole scan\<close>

lemma state_at_inv:
  "state_at mi bs n (initial_state mi out) k = Some s \<Longrightarrow> scan_inv mi k s"
proof (induction k arbitrary: s)
  case 0
  then show ?case using scan_inv_initial [of mi out] by simp
next
  case (Suc k)
  then show ?case
    by (auto split: option.splits if_splits flow.splits intro: scan_inv_Continue)
qed

lemma sub_no_underflow:
  fixes n m :: size_t
  assumes "unat m < unat n"
  shows "unat (n - m - 1) + unat m + 1 = unat n" and "n - m - 1 \<le> n"
  using assms by unat_arith+

lemma scan_post:
  assumes "scan_inv mi (unat i) s" and "i \<le> n" and "scan mi bs n i s = Inr (st, s')"
  shows "remainder s' \<le> n \<and>
         st \<in> {LL_STATUS_SUCCESS, LL_STATUS_MESSAGE_TOO_LONG, LL_STATUS_MESSAGE_TOO_SHORT,
               LL_STATUS_NO_ENOUGH_BYTES, LL_STATUS_NO_MESSAGE} \<and>
         (st = LL_STATUS_NO_ENOUGH_BYTES \<longrightarrow>
            unat (message_iter s') < unat n \<and> remainder s' = n - message_iter s' - 1)"
  using assms
proof (induction mi bs n i s rule: scan.induct)
  case (1 mi bs n i s)
  show ?case
  proof (cases "i < n")
    case False
    with "1.prems"(2) have "i = n" by simp
    moreover have "message_opened s \<Longrightarrow> unat (message_iter s) < unat i"
      using "1.prems"(1) by (simp add: scan_inv_def)
    ultimately show ?thesis
      using "1.prems"(3) sub_no_underflow(2) [of "message_iter s" n]
      by (auto simp: scan_end split: if_splits)
  next
    case True
    from True "1.prems"(3) obtain b where b: "load bs (unat i) = Inr b"
      by (subst (asm) scan.simps) (auto split: sum.splits)
    show ?thesis
    proof (cases "loop_body mi n i b s")
      case (Continue s1)
      have "scan mi bs n i s = scan mi bs n (i + 1) s1"
        using True b Continue by (subst scan.simps) simp
      moreover have "scan_inv mi (unat (i + 1)) s1"
        using scan_inv_Continue [OF "1.prems"(1) Continue] True by (simp add: unat_succ)
      moreover have "i + 1 \<le> n" using True by (rule inc_le)
      ultimately show ?thesis
        using "1.IH" [OF True b Continue] "1.prems"(3) by simp
    next
      case (Return st1 s1)
      have "scan mi bs n i s = Inr (st1, s1)"
        using True b Return by (subst scan.simps) simp
      then show ?thesis
        using "1.prems"(3) Return_remainder [OF Return True] by auto
    next
      case (Trap f)
      have "scan mi bs n i s = Inl f"
        using True b Trap by (subst scan.simps) simp
      then show ?thesis using "1.prems"(3) by simp
    qed
  qed
qed

lemma scan_buffer:
  assumes "scan_inv mi (unat i) s" and "buffer_inv mi out0 s"
    and "unat (size_msg mi) \<le> length out0"
  shows "scan mi bs n i s \<noteq> Inl Out_Of_Bounds_Write \<and>
         (\<forall>st s'. scan mi bs n i s = Inr (st, s') \<longrightarrow> buffer_inv mi out0 s')"
  using assms
proof (induction mi bs n i s rule: scan.induct)
  case (1 mi bs n i s)
  show ?case
  proof (cases "i < n")
    case False
    then show ?thesis
      using "1.prems"(2) by (subst scan.simps, subst scan.simps) (auto simp: buffer_inv_def)
  next
    case True
    show ?thesis
    proof (cases "load bs (unat i)")
      case (Inl f)
      then have "f = Out_Of_Bounds_Read" by (auto simp: load_def split: if_splits)
      then show ?thesis using True Inl by (subst scan.simps, subst scan.simps) simp
    next
      case (Inr b)
      note body = buffer_inv_body [OF "1.prems"(1,2,3), where n=n and i=i and b=b]
      show ?thesis
      proof (cases "loop_body mi n i b s")
        case (Continue s1)
        have eq: "scan mi bs n i s = scan mi bs n (i + 1) s1"
          using True Inr Continue by (subst scan.simps) simp
        have "scan_inv mi (unat (i + 1)) s1"
          using scan_inv_Continue [OF "1.prems"(1) Continue] True by (simp add: unat_succ)
        moreover have "buffer_inv mi out0 s1" using body Continue by simp
        ultimately show ?thesis
          using "1.IH" [OF True Inr Continue] "1.prems"(3) eq by simp
      next
        case (Return st1 s1)
        have "scan mi bs n i s = Inr (st1, s1)"
          using True Inr Return by (subst scan.simps) simp
        then show ?thesis using body Return by simp
      next
        case (Trap f)
        then show ?thesis using body by simp
      qed
    qed
  qed
qed

lemma ll_deserialize_Some:
  "ll_deserialize mi (Some bs) n (Some out) (Some r) =
     (case scan mi bs n 0 (initial_state mi out) of
        Inl f \<Rightarrow> Inl f
      | Inr (st, s) \<Rightarrow> Inr (st, Some (data_out s), Some (remainder s)))"
  by (simp add: ll_deserialize_def)

lemma ll_deserialize_at:
  assumes "state_at mi bs n (initial_state mi out) k = Some s"
    and "k < unat n" and "k < length bs"
    and "loop_body mi n (of_nat k) (bs ! k) s = Return st s'"
  shows "ll_deserialize mi (Some bs) n (Some out) (Some r) =
           Inr (st, Some (data_out s'), Some (remainder s'))"
  using scan_state_at [OF assms(1)] scan_Return [OF assms(2,3,4)]
  by (simp add: ll_deserialize_Some)

lemma of_nat_eq_pred:
  assumes "k < unat (n::size_t)"
  shows "(of_nat k = n - 1) \<longleftrightarrow> Suc k = unat n"
proof
  assume "of_nat k = n - 1"
  then have "unat (of_nat k :: size_t) = unat (n - 1)" by simp
  then show "Suc k = unat n"
    using assms unat_of_nat_below [OF assms] by unat_arith
next
  assume "Suc k = unat n"
  then have "(of_nat (Suc k) :: size_t) = of_nat (unat n)" by (rule arg_cong)
  then have "(of_nat k :: size_t) + 1 = n" by (simp add: add.commute)
  then show "of_nat k = n - 1" by (simp add: eq_diff_eq)
qed

section \<open>What the scanner returns\<close>

text \<open>
  Claim C3. Suppose the scan of a window reaches offset \<open>i\<close> with a frame open and exactly
  \<open>message_size\<close> payload bytes written (\<open>s\<close> is the state at the start of iteration
  \<open>i\<close>). If the byte at offset \<open>i\<close> is the \<open>end_byte\<close>, the call returns
  \<open>LL_STATUS_SUCCESS\<close> with remainder \<open>i + 1\<close>, or \<open>0\<close> when \<open>i\<close> is the last offset of
  the window; otherwise it returns \<open>LL_STATUS_MESSAGE_TOO_LONG\<close> with remainder \<open>i\<close>.
\<close>

theorem frame_full_end_or_too_long:
  assumes "state_at mi bs n (initial_state mi out) i = Some s"
    and "i < unat n" and "i < length bs"
    and "message_opened s" and "message_iter s = size_msg mi"
  shows "ll_deserialize mi (Some bs) n (Some out) (Some r) =
           (if bs ! i = end_byte mi
            then Inr (LL_STATUS_SUCCESS, Some (data_out s),
                      Some (if Suc i = unat n then 0 else of_nat (Suc i)))
            else Inr (LL_STATUS_MESSAGE_TOO_LONG, Some (data_out s), Some (of_nat i)))"
proof -
  have "loop_body mi n (of_nat i) (bs ! i) s =
          (if bs ! i = end_byte mi
           then Return LL_STATUS_SUCCESS
                  (fetch mi (bs ! i) s\<lparr>message_opened := False,
                     remainder := if Suc i = unat n then 0 else of_nat (Suc i)\<rparr>)
           else Return LL_STATUS_MESSAGE_TOO_LONG
                  (fetch mi (bs ! i) s\<lparr>message_opened := False, remainder := of_nat i\<rparr>))"
    using assms(4,5) of_nat_eq_pred [OF assms(2)]
    by (simp add: loop_body_def Let_def add.commute)
  then show ?thesis
    using ll_deserialize_at [OF assms(1,2,3), where r = r]
    by (simp split: if_splits)
qed

theorem frame_full_end_or_too_long_witness:
  "state_at (example_info 2) [0xAA, 0x11, 0x22, 0xBB] 4 (initial_state (example_info 2) [0, 0]) 3 =
     Some \<lparr>message_opened = True, reject = False, ignore_previous = False, message_iter = 2,
            byte = 0x22, previous_byte = 0x11, data_out = [0x11, 0x22], remainder = 0\<rparr>
   \<and> ll_deserialize (example_info 2) (Some [0xAA, 0x11, 0x22, 0xBB]) 4 (Some [0, 0]) (Some 7) =
       Inr (LL_STATUS_SUCCESS, Some [0x11, 0x22], Some 0)"
proof -
  have h: "state_at (example_info 2) [0xAA, 0x11, 0x22, 0xBB] 4
             (initial_state (example_info 2) [0, 0]) 3 =
     Some \<lparr>message_opened = True, reject = False, ignore_previous = False, message_iter = 2,
            byte = 0x22, previous_byte = 0x11, data_out = [0x11, 0x22], remainder = 0\<rparr>"
    by code_simp
  show ?thesis
    using h frame_full_end_or_too_long [OF h, of 7]
    by (simp add: example_info_def)
qed

text \<open>
  The test for a premature \<open>end_byte\<close> (lines 116 to 119 of the source), at a state the
  scan reaches: it fires when the flag \<open>ignore_previous\<close> is clear and the previous byte is
  not a \<open>reject_byte\<close> that started an escape.
\<close>

lemma premature_end_too_short:
  assumes "state_at mi bs n (initial_state mi out) i = Some s"
    and "i < unat n" and "i < length bs"
    and "message_opened s" and "message_iter s < size_msg mi"
    and "bs ! i = end_byte mi"
    and "\<not> (byte s = reject_byte mi \<and> reject s)"
    and "\<not> ignore_previous s"
  shows "ll_deserialize mi (Some bs) n (Some out) (Some r) =
           Inr (LL_STATUS_MESSAGE_TOO_SHORT, Some (data_out s), Some (of_nat (Suc i)))
         \<and> unat (of_nat (Suc i) :: size_t) = Suc i"
proof -
  have "scan_inv mi i s"
    using assms(1) by (rule state_at_inv)
  then have prev: "byte s \<noteq> reject_byte mi"
    using assms(4,7,8) by (auto simp: scan_inv_def)
  have "loop_body mi n (of_nat i) (bs ! i) s =
          Return LL_STATUS_MESSAGE_TOO_SHORT
            (fetch mi (bs ! i) s\<lparr>message_opened := False, reject := False,
               message_iter := 0, remainder := of_nat (Suc i)\<rparr>)"
    using assms(4,5,6,8) prev
    by (simp add: loop_body_def Let_def add.commute)
  then have "ll_deserialize mi (Some bs) n (Some out) (Some r) =
           Inr (LL_STATUS_MESSAGE_TOO_SHORT, Some (data_out s), Some (of_nat (Suc i)))"
    using ll_deserialize_at [OF assms(1,2,3), where r = r] by simp
  moreover have "unat (of_nat (Suc i) :: size_t) = Suc i"
    using assms(2) by (metis Suc_leI le_unat_uoi)
  ultimately show ?thesis by simp
qed

text \<open>
  Claim C4 at two windows, for a message of two bytes. In \<open>AA CC CC BB 11 BB\<close> the
  \<open>end_byte\<close> at offset 3 arrives with the frame open, one payload byte written, no escape
  pending and a literal (self-escaped) \<open>reject_byte\<close> before it; in \<open>AA CC CC AA BB\<close> the
  \<open>end_byte\<close> at offset 4 arrives in the same way after the byte \<open>AA\<close>. In both the flag
  \<open>ignore_previous\<close> is still set, the \<open>end_byte\<close> is passed over, and the call does not
  return \<open>LL_STATUS_MESSAGE_TOO_SHORT\<close>: it returns \<open>LL_STATUS_SUCCESS\<close> with the payload
  \<open>CC 11\<close>, and \<open>LL_STATUS_NO_ENOUGH_BYTES\<close> with remainder 3.
\<close>

theorem premature_end_not_reported:
  "state_at (example_info 2) [0xAA, 0xCC, 0xCC, 0xBB, 0x11, 0xBB] 6
       (initial_state (example_info 2) [0, 0]) 3 =
     Some \<lparr>message_opened = True, reject = False, ignore_previous = True, message_iter = 1,
            byte = 0xCC, previous_byte = 0xCC, data_out = [0xCC, 0], remainder = 0\<rparr> \<and>
   ll_deserialize (example_info 2) (Some [0xAA, 0xCC, 0xCC, 0xBB, 0x11, 0xBB]) 6
       (Some [0, 0]) (Some 7) =
     Inr (LL_STATUS_SUCCESS, Some [0xCC, 0x11], Some 0) \<and>
   state_at (example_info 2) [0xAA, 0xCC, 0xCC, 0xAA, 0xBB] 5
       (initial_state (example_info 2) [0, 0]) 4 =
     Some \<lparr>message_opened = True, reject = False, ignore_previous = True, message_iter = 1,
            byte = 0xAA, previous_byte = 0xCC, data_out = [0xCC, 0], remainder = 0\<rparr> \<and>
   ll_deserialize (example_info 2) (Some [0xAA, 0xCC, 0xCC, 0xAA, 0xBB]) 5
       (Some [0, 0]) (Some 7) =
     Inr (LL_STATUS_NO_ENOUGH_BYTES, Some [0xCC, 0], Some 3)"
  by code_simp

text \<open>
  Claim C7. With a null \<open>byte_stream\<close>, \<open>data_out\<close> or \<open>remainder\<close>, \<open>ll_deserialize\<close>
  returns \<open>LL_STATUS_BAD_PARAMS\<close> and leaves \<open>data_out\<close> and \<open>remainder\<close> as they were;
  \<open>ll_sizeof_serialized\<close> returns 0 for a null \<open>data\<close>; and \<open>ll_serialize\<close> writes nothing
  when \<open>data_in\<close> or \<open>data_out\<close> is null.
\<close>

theorem null_arguments:
  "(bs = None \<or> out = None \<or> r = None \<longrightarrow>
      ll_deserialize mi bs n out r = Inr (LL_STATUS_BAD_PARAMS, out, r)) \<and>
   ll_sizeof_serialized mi None = Inr 0 \<and>
   (d = None \<or> out = None \<longrightarrow> ll_serialize mi d out = Inr out)"
  by (auto simp: ll_deserialize_def ll_sizeof_serialized_def ll_serialize_def
           split: option.splits)

theorem null_arguments_witness:
  "ll_deserialize (example_info 2) None 3 (Some [1, 2]) (Some 5) =
     Inr (LL_STATUS_BAD_PARAMS, Some [1, 2], Some 5) \<and>
   ll_sizeof_serialized (example_info 2) None = Inr 0 \<and>
   ll_serialize (example_info 2) None (Some [1, 2]) = Inr (Some [1, 2])"
  using null_arguments [where bs = None and out = "Some [1, 2]" and r = "Some 5"
      and mi = "example_info 2" and n = 3 and d = None]
  by simp

text \<open>
  Claim C10. Whenever \<open>ll_deserialize\<close> returns a status other than
  \<open>LL_STATUS_BAD_PARAMS\<close>, the value it has stored in \<open>*remainder\<close> is at most
  \<open>byte_stream_size\<close>. In the \<open>LL_STATUS_NO_ENOUGH_BYTES\<close> case the subtraction
  \<open>byte_stream_size - message_iter - 1\<close> does not wrap: \<open>message_iter + 1\<close> is at most
  \<open>byte_stream_size\<close>, and the remainder plus \<open>message_iter + 1\<close> is \<open>byte_stream_size\<close>
  as natural numbers.
\<close>

theorem remainder_within_window:
  assumes "ll_deserialize mi bs n out r = Inr (st, out', r')"
    and "st \<noteq> LL_STATUS_BAD_PARAMS"
  shows "\<exists>bs0 out0 s'.
           bs = Some bs0 \<and> out = Some out0 \<and>
           scan mi bs0 n 0 (initial_state mi out0) = Inr (st, s') \<and>
           r' = Some (remainder s') \<and> remainder s' \<le> n \<and>
           (st = LL_STATUS_NO_ENOUGH_BYTES \<longrightarrow>
              unat (message_iter s') + 1 \<le> unat n \<and>
              unat (remainder s') + unat (message_iter s') + 1 = unat n)"
proof -
  from assms obtain bs0 out0 r0 where
    args: "bs = Some bs0" "out = Some out0" "r = Some r0"
    by (auto simp: ll_deserialize_def split: option.splits)
  with assms(1) obtain s' where
    s': "scan mi bs0 n 0 (initial_state mi out0) = Inr (st, s')"
    and r': "r' = Some (remainder s')"
    by (auto simp: ll_deserialize_Some split: sum.splits)
  have "scan_inv mi (unat (0::size_t)) (initial_state mi out0)"
    by (simp add: scan_inv_initial)
  from scan_post [OF this _ s'] have
    post: "remainder s' \<le> n"
      "st = LL_STATUS_NO_ENOUGH_BYTES \<Longrightarrow>
         unat (message_iter s') < unat n \<and> remainder s' = n - message_iter s' - 1"
    by simp_all
  have "st = LL_STATUS_NO_ENOUGH_BYTES \<Longrightarrow>
          unat (message_iter s') + 1 \<le> unat n \<and>
          unat (remainder s') + unat (message_iter s') + 1 = unat n"
    using post(2) sub_no_underflow(1) [of "message_iter s'" n] by auto
  then show ?thesis
    using args s' r' post(1) by blast
qed

theorem remainder_within_window_witness:
  "ll_deserialize (example_info 2) (Some [0x00, 0xAA, 0x11]) 3 (Some [0, 0]) (Some 7) =
     Inr (LL_STATUS_NO_ENOUGH_BYTES, Some [0x11, 0], Some 1) \<and>
   (\<exists>s'. scan (example_info 2) [0x00, 0xAA, 0x11] 3 0 (initial_state (example_info 2) [0, 0]) =
            Inr (LL_STATUS_NO_ENOUGH_BYTES, s') \<and>
         remainder s' = 1 \<and> remainder s' \<le> 3 \<and> 
         unat (remainder s') + unat (message_iter s') + 1 = unat (3 :: size_t))"
proof -
  have h: "ll_deserialize (example_info 2) (Some [0x00, 0xAA, 0x11]) 3 (Some [0, 0]) (Some 7) =
     Inr (LL_STATUS_NO_ENOUGH_BYTES, Some [0x11, 0], Some 1)"
    by code_simp
  show ?thesis
    using h remainder_within_window [OF h] by auto
qed

lemma write_index_body:
  assumes "scan_inv mi k s"
  shows "case loop_body mi n i b s of
           Continue s' \<Rightarrow>
             data_out s' = data_out s \<or>
             unat (message_iter s) < unat (size_msg mi) \<and>
             data_out s' = (data_out s)[unat (message_iter s) := b]
         | Return st s' \<Rightarrow> data_out s' = data_out s
         | Trap f \<Rightarrow> unat (message_iter s) < unat (size_msg mi)"
  using scan_inv_less(4) [OF assms]
  by (simp add: loop_body_def Let_def write_byte_def store_def split: sum.splits)

text \<open>
  Claim C9. At every iteration the scan reaches, a write into \<open>data_out\<close> goes to index
  \<open>message_iter\<close>, and \<open>message_iter\<close> is below the message size then (also when the
  write faults because the buffer is shorter). Hence with a \<open>data_out\<close> of at least
  \<open>message_size\<close> bytes no write is ever out of bounds, whatever the window, and the bytes
  of the buffer from index \<open>message_size\<close> on are never changed.
\<close>

theorem writes_within_message_size:
  "(state_at mi bs n (initial_state mi out) k = Some s \<longrightarrow>
      (case loop_body mi n (of_nat k) b s of
         Continue s' \<Rightarrow>
           data_out s' = data_out s \<or>
           unat (message_iter s) < unat (size_msg mi) \<and>
           data_out s' = (data_out s)[unat (message_iter s) := b]
       | Return st s' \<Rightarrow> data_out s' = data_out s
       | Trap f \<Rightarrow> unat (message_iter s) < unat (size_msg mi))) \<and>
   (unat (size_msg mi) \<le> length out \<longrightarrow>
      ll_deserialize mi (Some bs) n (Some out) (Some r) \<noteq> Inl Out_Of_Bounds_Write \<and>
      (\<forall>st out' r'.
          ll_deserialize mi (Some bs) n (Some out) (Some r) = Inr (st, out', r') \<longrightarrow>
          (\<exists>d. out' = Some d \<and> length d = length out \<and>
               drop (unat (size_msg mi)) d = drop (unat (size_msg mi)) out)))"
proof -
  have "scan_inv mi (unat (0::size_t)) (initial_state mi out)"
    by (simp add: scan_inv_initial)
  from scan_buffer [OF this buffer_inv_initial, where bs = bs and n = n]
  have "unat (size_msg mi) \<le> length out \<Longrightarrow>
      ll_deserialize mi (Some bs) n (Some out) (Some r) \<noteq> Inl Out_Of_Bounds_Write \<and>
      (\<forall>st out' r'.
          ll_deserialize mi (Some bs) n (Some out) (Some r) = Inr (st, out', r') \<longrightarrow>
          (\<exists>d. out' = Some d \<and> length d = length out \<and>
               drop (unat (size_msg mi)) d = drop (unat (size_msg mi)) out))"
    by (auto simp: ll_deserialize_Some buffer_inv_def split: sum.splits)
  then show ?thesis
    using write_index_body [OF state_at_inv, where mi = mi and n = n and b = b]
    by blast
qed

theorem writes_within_message_size_witness:
  "state_at (example_info 2) [0xAA, 0x11, 0x22, 0xBB] 4 (initial_state (example_info 2) [0, 0]) 1 =
     Some \<lparr>message_opened = True, reject = False, ignore_previous = False, message_iter = 0,
            byte = 0xAA, previous_byte = 0xBB, data_out = [0, 0], remainder = 0\<rparr> \<and>
   unat (size_msg (example_info 2)) \<le> length [0 :: uint8_t, 0] \<and>
   ll_deserialize (example_info 2) (Some [0xAA, 0x11, 0x22, 0xBB]) 4 (Some [0, 0]) (Some 7) \<noteq>
     Inl Out_Of_Bounds_Write"
proof -
  have h: "state_at (example_info 2) [0xAA, 0x11, 0x22, 0xBB] 4
             (initial_state (example_info 2) [0, 0]) 1 =
     Some \<lparr>message_opened = True, reject = False, ignore_previous = False, message_iter = 0,
            byte = 0xAA, previous_byte = 0xBB, data_out = [0, 0], remainder = 0\<rparr>"
    by code_simp
  have l: "unat (size_msg (example_info 2)) \<le> length [0 :: uint8_t, 0]"
    by (simp add: example_info_def)
  show ?thesis
    using h l writes_within_message_size [where mi = "example_info 2"
        and bs = "[0xAA, 0x11, 0x22, 0xBB]" and n = 4 and out = "[0, 0]" and k = 1 and r = 7]
    by blast
qed

section \<open>The encoder\<close>

lemma count_control_simps [simp]:
  "count_control mi [] = 0"
  "count_control mi (b # P) = (if is_control mi b then Suc (count_control mi P) else count_control mi P)"
  by (simp_all add: count_control_def)

lemma count_control_le: "count_control mi P \<le> length P"
  by (simp add: count_control_def)

lemma count_control_eq_length:
  "count_control mi P = length P \<longleftrightarrow> (\<forall>b \<in> set P. is_control mi b)"
proof (induction P)
  case Nil
  then show ?case by simp
next
  case (Cons b P)
  then show ?case using count_control_le [of mi P] by auto
qed

lemma length_escape: "length (escape mi P) = length P + count_control mi P"
  by (induction P) simp_all

lemma length_frame: "length (frame mi P) = length P + 2 + count_control mi P"
  by (simp add: frame_def length_escape)

lemma drop_take_step:
  assumes "k < N" and "N \<le> length xs"
  shows "drop k (take N xs) = xs ! k # drop (Suc k) (take N xs)"
  using assms by (simp add: Cons_nth_drop_Suc [symmetric])

lemma sizeof_loop_eq:
  assumes "unat (size_msg mi) \<le> length data" and "i \<le> size_msg mi"
  shows "sizeof_loop mi data i r =
           Inr (r + of_nat (count_control mi (drop (unat i) (take (unat (size_msg mi)) data))))"
  using assms
proof (induction mi data i r rule: sizeof_loop.induct)
  case (1 mi data i r)
  show ?case
  proof (cases "i < size_msg mi")
    case False
    with "1.prems"(2) have "i = size_msg mi" by simp
    then show ?thesis using "1.prems"(1) by (subst sizeof_loop.simps) simp
  next
    case True
    then have lt: "unat i < unat (size_msg mi)" by (simp add: word_less_nat_alt)
    then have ld: "load data (unat i) = Inr (data ! unat i)"
      using "1.prems"(1) by (simp add: load_def)
    have dr: "drop (unat i) (take (unat (size_msg mi)) data) =
                data ! unat i # drop (unat (i + 1)) (take (unat (size_msg mi)) data)"
      using drop_take_step [OF lt "1.prems"(1)] True by (simp add: unat_succ)
    have le: "i + 1 \<le> size_msg mi" using True by (rule inc_le)
    show ?thesis
      using True ld "1.IH" [OF True ld "1.prems"(1) le] dr
      by (subst sizeof_loop.simps) (simp add: is_control_def)
  qed
qed

lemma ll_sizeof_serialized_eq:
  assumes "length P = unat (size_msg mi)"
  shows "ll_sizeof_serialized mi (Some P) = Inr (size_msg mi + 2 + of_nat (count_control mi P))"
  using sizeof_loop_eq [of mi P 0 "size_msg mi + 2"] assms
  by (simp add: ll_sizeof_serialized_def)

lemma unat_frame_size:
  assumes "unat (sz :: size_t) + 2 + c < 2 ^ 64"
  shows "unat (sz + 2 + of_nat c) = unat sz + 2 + c"
proof -
  have "unat (sz + 2 + of_nat c) = (unat sz + 2 + c) mod 2 ^ 64"
    by (simp add: unat_word_ariths unat_of_nat mod_simps)
  also have "\<dots> = unat sz + 2 + c" using assms by simp
  finally show ?thesis .
qed

lemma take_Suc_update: "t < length out \<Longrightarrow> take (Suc t) (out[t := v]) = take t out @ [v]"
  by (simp add: take_Suc_conv_app_nth)

lemma update_two:
  "Suc t < length out \<Longrightarrow>
     out[t := a, Suc t := b] = take t out @ a # b # drop (Suc (Suc t)) out"
proof (induction t arbitrary: out)
  case 0
  then obtain x y zs where "out = x # y # zs"
    by (cases out; cases "tl out") auto
  then show ?case by simp
next
  case (Suc t)
  then obtain x out' where "out = x # out'" by (cases out) auto
  with Suc show ?case by simp
qed

lemma serialize_body_eq:
  "serialize_body mi b (out, t) =
     (if t + length (escape mi [b]) \<le> length out
      then Inr (take t out @ escape mi [b] @ drop (t + length (escape mi [b])) out,
                t + length (escape mi [b]))
      else Inl Out_Of_Bounds_Write)"
proof (cases "is_control mi b")
  case True
  have "t + 2 \<le> length out \<Longrightarrow>
          out[t := reject_byte mi, Suc t := b] = take t out @ reject_byte mi # b # drop (t + 2) out"
    using update_two [of t out] by simp
  then show ?thesis
    using True by (auto simp: serialize_body_def store_def is_control_def)
next
  case False
  have "t + 1 \<le> length out \<Longrightarrow> out[t := b] = take t out @ b # drop (t + 1) out"
    by (simp add: upd_conv_take_nth_drop)
  then show ?thesis
    using False by (auto simp: serialize_body_def store_def is_control_def)
qed

lemma serialize_loop_eq:
  assumes "unat (size_msg mi) \<le> length d" and "i \<le> size_msg mi" and "t \<le> length out"
  shows "serialize_loop mi d i (out, t) =
           (let E = escape mi (drop (unat i) (take (unat (size_msg mi)) d))
            in if t + length E \<le> length out
               then Inr (take t out @ E @ drop (t + length E) out, t + length E)
               else Inl Out_Of_Bounds_Write)"
  using assms
proof (induction mi d i "(out, t)" arbitrary: out t rule: serialize_loop.induct)
  case (1 mi d i)
  show ?case
  proof (cases "i < size_msg mi")
    case False
    with "1.prems"(2) have "i = size_msg mi" by simp
    then show ?thesis using "1.prems"(1,3) by (subst serialize_loop.simps) simp
  next
    case True
    then have lt: "unat i < unat (size_msg mi)" by (simp add: word_less_nat_alt)
    then have ld: "load d (unat i) = Inr (d ! unat i)"
      using "1.prems"(1) by (simp add: load_def)
    define b where "b = d ! unat i"
    define E1 where "E1 = escape mi [b]"
    define E' where "E' = escape mi (drop (unat (i + 1)) (take (unat (size_msg mi)) d))"
    have "drop (unat i) (take (unat (size_msg mi)) d) =
            b # drop (unat (i + 1)) (take (unat (size_msg mi)) d)"
      using drop_take_step [OF lt "1.prems"(1)] True by (simp add: unat_succ b_def)
    then have dr: "escape mi (drop (unat i) (take (unat (size_msg mi)) d)) = E1 @ E'"
      unfolding E1_def E'_def by simp
    have le: "i + 1 \<le> size_msg mi" using True by (rule inc_le)
    show ?thesis
    proof (cases "t + length E1 \<le> length out")
      case False
      then have "serialize_loop mi d i (out, t) = Inl Out_Of_Bounds_Write"
        using True ld
        by (subst serialize_loop.simps) (simp add: serialize_body_eq b_def E1_def)
      then show ?thesis using False dr by (simp add: Let_def)
    next
      case fits: True
      define out1 where "out1 = take t out @ E1 @ drop (t + length E1) out"
      have body: "serialize_body mi b (out, t) = Inr (out1, t + length E1)"
        using fits by (simp add: serialize_body_eq E1_def out1_def)
      have len: "length out1 = length out" using fits by (simp add: out1_def)
      have tk: "take (t + length E1) out1 = take t out @ E1"
        using fits by (simp add: out1_def)
      have drp: "\<And>m. drop (t + length E1 + m) out1 = drop (t + length E1 + m) out"
        using fits by (simp add: out1_def add.commute)
      have "serialize_loop mi d i (out, t) = serialize_loop mi d (i + 1) (out1, t + length E1)"
        using True ld body by (subst serialize_loop.simps) (simp add: b_def)
      also have "\<dots> =
          (if t + length E1 + length E' \<le> length out1
           then Inr (take (t + length E1) out1 @ E' @ drop (t + length E1 + length E') out1,
                     t + length E1 + length E')
           else Inl Out_Of_Bounds_Write)"
        using "1.hyps" [OF True ld [folded b_def] body "1.prems"(1) le] fits len
        by (simp add: Let_def E'_def b_def)
      finally show ?thesis
        using dr len tk drp by (simp add: Let_def add.assoc)
    qed
  qed
qed

lemma ll_serialize_eq:
  assumes "length P = unat (size_msg mi)"
  shows "ll_serialize mi (Some P) (Some out) =
           (if length (frame mi P) \<le> length out
            then Inr (Some (frame mi P @ drop (length (frame mi P)) out))
            else Inl Out_Of_Bounds_Write)"
proof (cases "out = []")
  case True
  then show ?thesis by (simp add: ll_serialize_def store_def frame_def)
next
  case False
  define E where "E = escape mi P"
  define out1 where "out1 = out[0 := begin_byte mi]"
  have st: "store out 0 (begin_byte mi) = Inr out1"
    using False by (simp add: store_def out1_def)
  have lp: "serialize_loop mi P 0 (out1, 1) =
              (if 1 + length E \<le> length out1
               then Inr (take 1 out1 @ E @ drop (1 + length E) out1, 1 + length E)
               else Inl Out_Of_Bounds_Write)"
    using serialize_loop_eq [of mi P 0 1 out1] assms False
    by (cases out) (simp_all add: E_def Let_def out1_def)
  have t1: "take 1 out1 = [begin_byte mi]"
    using False by (cases out) (simp_all add: out1_def)
  have d1: "\<And>m. drop (Suc m) out1 = drop (Suc m) out"
    by (simp add: out1_def)
  show ?thesis
  proof (cases "1 + length E \<le> length out")
    case False
    then show ?thesis
      using st lp by (simp add: ll_serialize_def frame_def E_def out1_def)
  next
    case True
    define out2 where "out2 = begin_byte mi # E @ drop (Suc (length E)) out"
    have lp': "serialize_loop mi P 0 (out1, 1) = Inr (out2, Suc (length E))"
      using lp True t1 d1 by (simp add: out1_def out2_def)
    have l2: "length out2 = length out" using True by (simp add: out2_def)
    show ?thesis
    proof (cases "Suc (length E) < length out")
      case False
      then show ?thesis
        using st lp' l2 by (simp add: ll_serialize_def frame_def E_def [symmetric] store_def)
    next
      case lt: True
      have "out2[Suc (length E) := end_byte mi] =
              begin_byte mi # E @ end_byte mi # drop (Suc (Suc (length E))) out"
        using lt by (simp add: out2_def list_update_append upd_conv_take_nth_drop drop_Suc [symmetric] Cons_nth_drop_Suc)
      then show ?thesis
        using st lp' l2 lt
        by (simp add: ll_serialize_def frame_def E_def [symmetric] store_def)
    qed
  qed
qed

text \<open>
  Claim C2. For a payload \<open>P\<close> of \<open>message_size\<close> bytes whose frame length is a value of
  \<open>size_t\<close>, \<open>ll_sizeof_serialized\<close> returns \<open>message_size + 2\<close> plus the number of bytes
  of \<open>P\<close> equal to a control byte, and \<open>ll_serialize\<close> writes exactly that many bytes:
  the frame replaces the first \<open>k\<close> bytes of \<open>data_out\<close>, the rest of the buffer is as it
  was, and a buffer shorter than \<open>k\<close> bytes is overrun.
\<close>

theorem serialize_size_contract:
  assumes "length P = unat (size_msg mi)"
    and "unat (size_msg mi) + 2 + count_control mi P < 2 ^ 64"
  shows "\<exists>k. ll_sizeof_serialized mi (Some P) = Inr k \<and>
             unat k = unat (size_msg mi) + 2 + count_control mi P \<and>
             length (frame mi P) = unat k \<and>
             ll_serialize mi (Some P) (Some out) =
               (if unat k \<le> length out
                then Inr (Some (frame mi P @ drop (unat k) out))
                else Inl Out_Of_Bounds_Write)"
proof -
  define k where "k = size_msg mi + 2 + of_nat (count_control mi P)"
  have k: "unat k = unat (size_msg mi) + 2 + count_control mi P"
    unfolding k_def using assms(2) by (rule unat_frame_size)
  have "length (frame mi P) = unat k"
    using k assms(1) by (simp add: length_frame)
  moreover have "ll_sizeof_serialized mi (Some P) = Inr k"
    unfolding k_def using assms(1) by (rule ll_sizeof_serialized_eq)
  ultimately show ?thesis
    using k ll_serialize_eq [OF assms(1), of out] by simp
qed

theorem serialize_size_contract_witness:
  "length [0xF3, 0xBB :: uint8_t] = unat (size_msg (example_info 2)) \<and>
   unat (size_msg (example_info 2)) + 2 + count_control (example_info 2) [0xF3, 0xBB] < 2 ^ 64 \<and>
   (\<exists>k. ll_sizeof_serialized (example_info 2) (Some [0xF3, 0xBB]) = Inr k \<and> unat k = 5 \<and>
        ll_serialize (example_info 2) (Some [0xF3, 0xBB]) (Some [0, 0, 0, 0, 0, 9]) =
          Inr (Some [0xAA, 0xF3, 0xCC, 0xBB, 0xBB, 9]))"
proof -
  have h1: "length [0xF3, 0xBB :: uint8_t] = unat (size_msg (example_info 2))"
    by (simp add: example_info_def)
  have c: "count_control (example_info 2) [0xF3, 0xBB] = 1"
    by (simp add: example_info_def is_control_def)
  have h2: "unat (size_msg (example_info 2)) + 2 + count_control (example_info 2) [0xF3, 0xBB]
              < 2 ^ 64"
    unfolding c by (simp add: example_info_def)
  have f: "frame (example_info 2) [0xF3, 0xBB] = [0xAA, 0xF3, 0xCC, 0xBB, 0xBB]"
    by (simp add: frame_def example_info_def is_control_def)
  from serialize_size_contract [OF h1 h2, of "[0, 0, 0, 0, 0, 9]"] obtain k where
    k1: "ll_sizeof_serialized (example_info 2) (Some [0xF3, 0xBB]) = Inr k" and
    k2: "unat k = unat (size_msg (example_info 2)) + 2 + count_control (example_info 2) [0xF3, 0xBB]" and
    k3: "ll_serialize (example_info 2) (Some [0xF3, 0xBB]) (Some [0, 0, 0, 0, 0, 9]) =
           (if unat k \<le> length [0 :: uint8_t, 0, 0, 0, 0, 9]
            then Inr (Some (frame (example_info 2) [0xF3, 0xBB] @ drop (unat k) [0, 0, 0, 0, 0, 9]))
            else Inl Out_Of_Bounds_Write)"
    by blast
  have u: "unat k = 5" using k2 unfolding c by (simp add: example_info_def)
  have "ll_serialize (example_info 2) (Some [0xF3, 0xBB]) (Some [0, 0, 0, 0, 0, 9]) =
          Inr (Some [0xAA, 0xF3, 0xCC, 0xBB, 0xBB, 9])"
    using k3 unfolding u f by simp
  then show ?thesis using h1 h2 k1 u by blast
qed

text \<open>
  Claim C8. For a payload \<open>P\<close> of \<open>message_size\<close> bytes whose frame length is a value of
  \<open>size_t\<close>, \<open>ll_sizeof_serialized\<close> returns at most \<open>2 * message_size + 2\<close>, and
  exactly that when and only when every byte of \<open>P\<close> is a control byte.
\<close>

theorem sizeof_redundancy_bound:
  assumes "length P = unat (size_msg mi)"
    and "unat (size_msg mi) + 2 + count_control mi P < 2 ^ 64"
  shows "\<exists>k. ll_sizeof_serialized mi (Some P) = Inr k \<and>
             unat k \<le> 2 * unat (size_msg mi) + 2 \<and>
             (unat k = 2 * unat (size_msg mi) + 2 \<longleftrightarrow> (\<forall>b \<in> set P. is_control mi b))"
proof -
  define k where "k = size_msg mi + 2 + of_nat (count_control mi P)"
  have k: "unat k = unat (size_msg mi) + 2 + count_control mi P"
    unfolding k_def using assms(2) by (rule unat_frame_size)
  have "ll_sizeof_serialized mi (Some P) = Inr k"
    unfolding k_def using assms(1) by (rule ll_sizeof_serialized_eq)
  moreover have "unat k \<le> 2 * unat (size_msg mi) + 2"
    using k count_control_le [of mi P] assms(1) by simp
  moreover have "unat k = 2 * unat (size_msg mi) + 2 \<longleftrightarrow> (\<forall>b \<in> set P. is_control mi b)"
    using k count_control_eq_length [of mi P] assms(1) by auto
  ultimately show ?thesis by blast
qed

theorem sizeof_redundancy_bound_witness:
  "length [0xCC, 0xAA :: uint8_t] = unat (size_msg (example_info 2)) \<and>
   unat (size_msg (example_info 2)) + 2 + count_control (example_info 2) [0xCC, 0xAA] < 2 ^ 64 \<and>
   (\<exists>k. ll_sizeof_serialized (example_info 2) (Some [0xCC, 0xAA]) = Inr k \<and> unat k = 6)"
proof -
  have h1: "length [0xCC, 0xAA :: uint8_t] = unat (size_msg (example_info 2))"
    by (simp add: example_info_def)
  have c: "count_control (example_info 2) [0xCC, 0xAA] = 2"
    by (simp add: example_info_def is_control_def)
  have h2: "unat (size_msg (example_info 2)) + 2 + count_control (example_info 2) [0xCC, 0xAA]
              < 2 ^ 64"
    unfolding c by (simp add: example_info_def)
  have a: "\<forall>b \<in> set [0xCC, 0xAA :: uint8_t]. is_control (example_info 2) b"
    by (simp add: example_info_def is_control_def)
  from sizeof_redundancy_bound [OF h1 h2] obtain k where
    k1: "ll_sizeof_serialized (example_info 2) (Some [0xCC, 0xAA]) = Inr k" and
    k2: "unat k = 2 * unat (size_msg (example_info 2)) + 2 \<longleftrightarrow>
           (\<forall>b \<in> set [0xCC, 0xAA :: uint8_t]. is_control (example_info 2) b)"
    by blast
  have "unat k = 6" using k2 a by (simp add: example_info_def)
  then show ?thesis using h1 h2 k1 by blast
qed

section \<open>Decoding a frame\<close>

lemma body_open:
  assumes "distinct_control mi" and "size_msg mi \<noteq> 0"
  shows "\<exists>s1. loop_body mi n i (begin_byte mi) (initial_state mi out) = Continue s1 \<and>
              message_opened s1 \<and> \<not> reject s1 \<and> byte s1 = begin_byte mi \<and>
              message_iter s1 = 0 \<and> data_out s1 = out"
  using assms
  by (auto simp add: loop_body_def Let_def distinct_control_def initial_state_def)

lemma body_literal:
  assumes "\<not> is_control mi p"
    and "message_opened s" and "\<not> reject s"
    and "byte s = reject_byte mi \<longrightarrow> ignore_previous s"
    and "message_iter s \<noteq> size_msg mi"
    and "unat (message_iter s) < length (data_out s)"
  shows "\<exists>s1. loop_body mi n i p s = Continue s1 \<and>
              message_opened s1 \<and> \<not> reject s1 \<and> byte s1 = p \<and>
              message_iter s1 = message_iter s + 1 \<and>
              data_out s1 = (data_out s)[unat (message_iter s) := p]"
proof (cases "byte s = reject_byte mi")
  case True
  then show ?thesis
    using assms by (auto simp add: loop_body_def Let_def is_control_def write_byte_def store_def)
next
  case False
  then show ?thesis
    using assms by (auto simp add: loop_body_def Let_def is_control_def write_byte_def store_def)
qed

lemma body_trigger:
  assumes "distinct_control mi"
    and "message_opened s" and "\<not> reject s"
    and "byte s = reject_byte mi \<longrightarrow> ignore_previous s"
    and "message_iter s \<noteq> size_msg mi"
  shows "\<exists>s1. loop_body mi n i (reject_byte mi) s = Continue s1 \<and>
              message_opened s1 \<and> reject s1 \<and> \<not> ignore_previous s1 \<and>
              byte s1 = reject_byte mi \<and>
              message_iter s1 = message_iter s \<and> data_out s1 = data_out s"
proof (cases "byte s = reject_byte mi")
  case True
  then show ?thesis
    using assms by (auto simp add: loop_body_def Let_def distinct_control_def)
next
  case False
  then show ?thesis
    using assms by (auto simp add: loop_body_def Let_def distinct_control_def)
qed

lemma body_escaped:
  assumes "is_control mi p"
    and "message_opened s" and "reject s" and "\<not> ignore_previous s"
    and "byte s = reject_byte mi"
    and "message_iter s \<noteq> size_msg mi"
    and "unat (message_iter s) < length (data_out s)"
  shows "\<exists>s1. loop_body mi n i p s = Continue s1 \<and>
              message_opened s1 \<and> \<not> reject s1 \<and> byte s1 = p \<and>
              (p = reject_byte mi \<longrightarrow> ignore_previous s1) \<and>
              message_iter s1 = message_iter s + 1 \<and>
              data_out s1 = (data_out s)[unat (message_iter s) := p]"
  using assms
  by (auto simp add: loop_body_def Let_def is_control_def write_byte_def store_def)

lemma body_end:
  assumes "message_opened s" and "message_iter s = size_msg mi" and "Suc k = unat n"
  shows "loop_body mi n (of_nat k) (end_byte mi) s =
           Return LL_STATUS_SUCCESS (fetch mi (end_byte mi) s\<lparr>message_opened := False, remainder := 0\<rparr>)"
proof -
  have "k < unat n" using assms(3) by simp
  then have "(of_nat k :: size_t) = n - 1"
    using assms(3) by (simp add: of_nat_eq_pred)
  then show ?thesis
    using assms(1,2) by (simp add: loop_body_def Let_def)
qed


lemma unat_eq_size:
  assumes "unat (m :: size_t) + l = unat (sz :: size_t)"
  shows "l = 0 \<Longrightarrow> m = sz" and "0 < l \<Longrightarrow> m \<noteq> sz"
    and "0 < l \<Longrightarrow> unat (m + 1) = Suc (unat m)"
proof -
  show "l = 0 \<Longrightarrow> m = sz" using assms by (simp add: word_unat_eq_iff)
  show "0 < l \<Longrightarrow> m \<noteq> sz" using assms by auto
  assume "0 < l"
  then have "m < sz" using assms by (simp add: word_less_nat_alt)
  then show "unat (m + 1) = Suc (unat m)" by (rule unat_succ)
qed

lemma decode_payload:
  assumes "distinct_control mi"
    and "message_opened s" and "\<not> reject s"
    and "byte s = reject_byte mi \<longrightarrow> ignore_previous s"
    and "unat (message_iter s) + length P = unat (size_msg mi)"
    and "unat (size_msg mi) \<le> length (data_out s)"
    and "k + length (escape mi P) + 1 = unat n"
  shows "\<exists>s'. scan_list mi n k (escape mi P @ [end_byte mi]) s = Inr (LL_STATUS_SUCCESS, s') \<and>
              remainder s' = 0 \<and>
              data_out s' = take (unat (message_iter s)) (data_out s) @ P @
                            drop (unat (message_iter s) + length P) (data_out s)"
  using assms(2-)
proof (induction P arbitrary: s k)
  case Nil
  have "message_iter s = size_msg mi"
    using unat_eq_size(1) [OF Nil.prems(4)] by simp
  then have "loop_body mi n (of_nat k) (end_byte mi) s =
           Return LL_STATUS_SUCCESS (fetch mi (end_byte mi) s\<lparr>message_opened := False, remainder := 0\<rparr>)"
    using Nil.prems(1,6) by (intro body_end) simp_all
  then show ?case by simp
next
  case (Cons p P)
  let ?m = "unat (message_iter s)"
  have ne: "message_iter s \<noteq> size_msg mi"
    and suc: "unat (message_iter s + 1) = Suc ?m"
    using unat_eq_size(2,3) [OF Cons.prems(4)] by simp_all
  have room: "?m < length (data_out s)"
    using Cons.prems(4,5) by simp
  have after: "\<exists>s'. scan_list mi n k' (escape mi P @ [end_byte mi]) s1 =
                     Inr (LL_STATUS_SUCCESS, s') \<and> remainder s' = 0 \<and>
                   data_out s' = take ?m (data_out s) @ (p # P) @
                                 drop (?m + length (p # P)) (data_out s)"
    if s1: "message_opened s1" "\<not> reject s1" "byte s1 = p"
       "p = reject_byte mi \<longrightarrow> ignore_previous s1"
       "message_iter s1 = message_iter s + 1"
       "data_out s1 = (data_out s)[?m := p]"
      and k': "k' + length (escape mi P) + 1 = unat n"
    for s1 k'
  proof -
    have "\<exists>s'. scan_list mi n k' (escape mi P @ [end_byte mi]) s1 =
                  Inr (LL_STATUS_SUCCESS, s') \<and> remainder s' = 0 \<and>
                data_out s' = take (unat (message_iter s1)) (data_out s1) @ P @
                              drop (unat (message_iter s1) + length P) (data_out s1)"
      using s1 k' suc Cons.prems(4,5) by (intro Cons.IH) simp_all
    moreover have "take (unat (message_iter s1)) (data_out s1) = take ?m (data_out s) @ [p]"
      using s1 suc room by (simp add: take_Suc_update)
    moreover have "drop (unat (message_iter s1) + length P) (data_out s1) =
                   drop (?m + length (p # P)) (data_out s)"
      using s1 suc by simp
    ultimately show ?thesis by simp
  qed
  show ?case
  proof (cases "is_control mi p")
    case False
    from body_literal [OF False Cons.prems(1,2,3) ne room, of n "of_nat k"]
    obtain s1 where
      b: "loop_body mi n (of_nat k) p s = Continue s1" and
      s1: "message_opened s1" "\<not> reject s1" "byte s1 = p"
          "message_iter s1 = message_iter s + 1" "data_out s1 = (data_out s)[?m := p]"
      by blast
    have "p \<noteq> reject_byte mi" using False by (simp add: is_control_def)
    with s1 Cons.prems(6) False
    have "\<exists>s'. scan_list mi n (Suc k) (escape mi P @ [end_byte mi]) s1 =
                     Inr (LL_STATUS_SUCCESS, s') \<and> remainder s' = 0 \<and>
                   data_out s' = take ?m (data_out s) @ (p # P) @
                                 drop (?m + length (p # P)) (data_out s)"
      by (intro after) simp_all
    then show ?thesis using b False by simp
  next
    case True
    from body_trigger [OF assms(1) Cons.prems(1,2,3) ne, of n "of_nat k"]
    obtain s1 where
      b1: "loop_body mi n (of_nat k) (reject_byte mi) s = Continue s1" and
      s1: "message_opened s1" "reject s1" "\<not> ignore_previous s1" "byte s1 = reject_byte mi"
          "message_iter s1 = message_iter s" "data_out s1 = data_out s"
      by blast
    from body_escaped [OF True s1(1,2,3,4), of n "of_nat (Suc k)"] ne room s1(5,6)
    obtain s2 where
      b2: "loop_body mi n (of_nat (Suc k)) p s1 = Continue s2" and
      s2: "message_opened s2" "\<not> reject s2" "byte s2 = p"
          "p = reject_byte mi \<longrightarrow> ignore_previous s2"
          "message_iter s2 = message_iter s + 1" "data_out s2 = (data_out s)[?m := p]"
      by auto
    from s2 Cons.prems(6) True
    have "\<exists>s'. scan_list mi n (Suc (Suc k)) (escape mi P @ [end_byte mi]) s2 =
                     Inr (LL_STATUS_SUCCESS, s') \<and> remainder s' = 0 \<and>
                   data_out s' = take ?m (data_out s) @ (p # P) @
                                 drop (?m + length (p # P)) (data_out s)"
      by (intro after) simp_all
    then show ?thesis using b1 b2 True by simp
  qed
qed


lemma decode_frame:
  assumes "distinct_control mi" and "length P = unat (size_msg mi)" and "size_msg mi \<noteq> 0"
    and "unat (size_msg mi) \<le> length out"
    and "unat n = length (frame mi P)"
  shows "\<exists>s'. scan_list mi n 0 (frame mi P) (initial_state mi out) =
                Inr (LL_STATUS_SUCCESS, s') \<and>
              remainder s' = 0 \<and> data_out s' = P @ drop (length P) out"
proof -
  from body_open [OF assms(1,3), of n 0 out] obtain s1 where
    b: "loop_body mi n 0 (begin_byte mi) (initial_state mi out) = Continue s1" and
    s1: "message_opened s1" "\<not> reject s1" "byte s1 = begin_byte mi"
        "message_iter s1 = 0" "data_out s1 = out"
    by blast
  have "byte s1 \<noteq> reject_byte mi"
    using s1(3) assms(1) by (simp add: distinct_control_def)
  moreover have "Suc 0 + length (escape mi P) + 1 = unat n"
    using assms(5) by (simp add: frame_def)
  ultimately have
    "\<exists>s'. scan_list mi n (Suc 0) (escape mi P @ [end_byte mi]) s1 = Inr (LL_STATUS_SUCCESS, s') \<and>
          remainder s' = 0 \<and>
          data_out s' = take (unat (message_iter s1)) (data_out s1) @ P @
                        drop (unat (message_iter s1) + length P) (data_out s1)"
    using s1 assms(2,4) by (intro decode_payload [OF assms(1)]) simp_all
  then show ?thesis
    using b s1 by (simp add: frame_def)
qed

text \<open>
  Claim C1, for a message size of at least one byte. Let the three control bytes be
  mutually distinct, \<open>P\<close> a payload of \<open>message_size \<ge> 1\<close> bytes whose frame length is a
  value of \<open>size_t\<close>, and \<open>W\<close> the contents of \<open>data_out\<close> after
  \<open>ll_serialize\<close>. Then \<open>ll_deserialize\<close> on \<open>W\<close>, with the result of
  \<open>ll_sizeof_serialized\<close> as the window size, returns \<open>LL_STATUS_SUCCESS\<close>, has written
  \<open>P\<close> to the front of its \<open>data_out\<close> and has set the remainder to 0. \<open>P\<close> is arbitrary:
  it may consist of \<open>reject_byte\<close>s only.
\<close>

theorem round_trip:
  assumes "distinct_control mi"
    and "length P = unat (size_msg mi)" and "size_msg mi \<noteq> 0"
    and "unat (size_msg mi) + 2 + count_control mi P < 2 ^ 64"
    and "ll_serialize mi (Some P) (Some buf) = Inr (Some W)"
    and "unat (size_msg mi) \<le> length out"
  shows "\<exists>k. ll_sizeof_serialized mi (Some P) = Inr k \<and>
             ll_deserialize mi (Some W) k (Some out) (Some r) =
               Inr (LL_STATUS_SUCCESS, Some (P @ drop (length P) out), Some 0)"
proof -
  define k where "k = size_msg mi + 2 + of_nat (count_control mi P)"
  have "unat k = unat (size_msg mi) + 2 + count_control mi P"
    unfolding k_def using assms(4) by (rule unat_frame_size)
  then have k: "unat k = length (frame mi P)"
    using assms(2) by (simp add: length_frame)
  have sz: "ll_sizeof_serialized mi (Some P) = Inr k"
    unfolding k_def using assms(2) by (rule ll_sizeof_serialized_eq)
  have W: "W = frame mi P @ drop (length (frame mi P)) buf"
    and fits: "length (frame mi P) \<le> length buf"
    using assms(5) ll_serialize_eq [OF assms(2), of buf] by (auto split: if_splits)
  have tk: "take (unat k) W = frame mi P" and len: "unat k \<le> length W"
    using W fits k by simp_all
  have "scan mi W k (of_nat 0) (initial_state mi out) =
          scan_list mi k 0 (drop 0 (take (unat k) W)) (initial_state mi out)"
    using len by (intro scan_scan_list) simp_all
  then have "scan mi W k 0 (initial_state mi out) =
          scan_list mi k 0 (frame mi P) (initial_state mi out)"
    using tk by simp
  with decode_frame [OF assms(1,2,3,6) k] obtain s' where
    "scan mi W k 0 (initial_state mi out) = Inr (LL_STATUS_SUCCESS, s')"
    "remainder s' = 0" "data_out s' = P @ drop (length P) out"
    by auto
  then have "ll_deserialize mi (Some W) k (Some out) (Some r) =
               Inr (LL_STATUS_SUCCESS, Some (P @ drop (length P) out), Some 0)"
    by (simp add: ll_deserialize_Some)
  with sz show ?thesis by blast
qed

theorem round_trip_witness:
  "distinct_control (example_info 2) \<and>
   length [0xCC, 0xCC :: uint8_t] = unat (size_msg (example_info 2)) \<and>
   size_msg (example_info 2) \<noteq> 0 \<and>
   unat (size_msg (example_info 2)) + 2 + count_control (example_info 2) [0xCC, 0xCC] < 2 ^ 64 \<and>
   ll_serialize (example_info 2) (Some [0xCC, 0xCC]) (Some [0, 0, 0, 0, 0, 0]) =
     Inr (Some [0xAA, 0xCC, 0xCC, 0xCC, 0xCC, 0xBB]) \<and>
   ll_sizeof_serialized (example_info 2) (Some [0xCC, 0xCC]) = Inr 6 \<and>
   ll_deserialize (example_info 2) (Some [0xAA, 0xCC, 0xCC, 0xCC, 0xCC, 0xBB]) 6
       (Some [0, 0]) (Some 7) =
     Inr (LL_STATUS_SUCCESS, Some [0xCC, 0xCC], Some 0)"
proof -
  have h1: "distinct_control (example_info 2)"
    by (simp add: distinct_control_def example_info_def)
  have h2: "length [0xCC, 0xCC :: uint8_t] = unat (size_msg (example_info 2))"
    by (simp add: example_info_def)
  have h3: "size_msg (example_info 2) \<noteq> 0"
    by (simp add: example_info_def)
  have c: "count_control (example_info 2) [0xCC, 0xCC] = 2"
    by (simp add: example_info_def is_control_def)
  have h4: "unat (size_msg (example_info 2)) + 2 + count_control (example_info 2) [0xCC, 0xCC]
              < 2 ^ 64"
    unfolding c by (simp add: example_info_def)
  have h5: "ll_serialize (example_info 2) (Some [0xCC, 0xCC]) (Some [0, 0, 0, 0, 0, 0]) =
              Inr (Some [0xAA, 0xCC, 0xCC, 0xCC, 0xCC, 0xBB])"
    by code_simp
  have h6: "unat (size_msg (example_info 2)) \<le> length [0 :: uint8_t, 0]"
    by (simp add: example_info_def)
  have s: "ll_sizeof_serialized (example_info 2) (Some [0xCC, 0xCC]) = Inr 6"
    by code_simp
  show ?thesis
    using h1 h2 h3 h4 h5 s round_trip [OF h1 h2 h3 h4 h5 h6, of 7] by simp
qed

text \<open>
  Claim C1 as stated fails for the message size 0: the frame of the empty payload is
  \<open>begin_byte, end_byte\<close>, and the scanner, which tests \<open>message_iter == size\<close> on the
  opening delimiter itself, answers \<open>LL_STATUS_MESSAGE_TOO_LONG\<close>.
\<close>

theorem round_trip_size_zero_counterexample:
  "distinct_control (example_info 0) \<and>
   length ([] :: uint8_t list) = unat (size_msg (example_info 0)) \<and>
   ll_sizeof_serialized (example_info 0) (Some []) = Inr 2 \<and>
   ll_serialize (example_info 0) (Some []) (Some [0, 0]) = Inr (Some [0xAA, 0xBB]) \<and>
   ll_deserialize (example_info 0) (Some [0xAA, 0xBB]) 2 (Some []) (Some 7) =
     Inr (LL_STATUS_MESSAGE_TOO_LONG, Some [], Some 0)"
  by code_simp

section \<open>The remainder of an unfinished frame\<close>

lemma Continue_body:
  assumes "scan_inv mi k s"
  shows "case loop_body mi n i b s of
           Continue s' \<Rightarrow>
             (message_opened s \<longrightarrow> message_opened s') \<and>
             (\<not> message_opened s \<longrightarrow> message_iter s' = 0) \<and>
             unat (message_iter s') \<le> Suc (unat (message_iter s)) \<and>
             (message_opened s \<and> \<not> is_control mi b \<longrightarrow>
                unat (message_iter s') = Suc (unat (message_iter s)))
         | Return st s' \<Rightarrow> True
         | Trap f \<Rightarrow> True"
proof (cases "message_opened s")
  case True
  then show ?thesis
    using assms scan_inv_less(2) [OF assms]
    by (auto simp add: scan_inv_def loop_body_def Let_def write_byte_def store_def is_control_def
             split: sum.splits)
next
  case False
  then show ?thesis
    using assms
    by (simp add: scan_inv_def loop_body_def Let_def write_byte_def store_def
             split: sum.splits)
qed

lemma find_snoc:
  "find Q (xs @ [x]) = (case find Q xs of None \<Rightarrow> if Q x then Some x else None | Some y \<Rightarrow> Some y)"
  by (induction xs) simp_all

lemma frame_start_Suc:
  "frame_start mi bs n out (Suc k) =
     (case frame_start mi bs n out k of
        None \<Rightarrow> if opened_after mi bs n out k then Some k else None
      | Some j \<Rightarrow> Some j)"
  by (simp add: frame_start_def find_snoc)

lemma frame_start_inv:
  "state_at mi bs n (initial_state mi out) k = Some s \<Longrightarrow>
     (if message_opened s then
        \<exists>j<k. frame_start mi bs n out k = Some j \<and> unat (message_iter s) + j < k \<and>
              ((\<forall>i. j < i \<and> i < k \<longrightarrow> \<not> is_control mi (bs ! i)) \<longrightarrow>
                 unat (message_iter s) + j + 1 = k)
      else frame_start mi bs n out k = None)"
proof (induction k arbitrary: s)
  case 0
  then have "s = initial_state mi out" by simp
  then show ?case by (simp add: initial_state_def frame_start_def)
next
  case (Suc k)
  from Suc.prems obtain s0 where
    s0: "state_at mi bs n (initial_state mi out) k = Some s0"
    and body: "loop_body mi n (of_nat k) (bs ! k) s0 = Continue s"
    by (auto split: option.splits if_splits flow.splits)
  have inv: "scan_inv mi k s0" using s0 by (rule state_at_inv)
  from Continue_body [OF inv, where n = n and i = "of_nat k" and b = "bs ! k"] body
  have c: "message_opened s0 \<longrightarrow> message_opened s"
    "\<not> message_opened s0 \<longrightarrow> message_iter s = 0"
    "unat (message_iter s) \<le> Suc (unat (message_iter s0))"
    "message_opened s0 \<and> \<not> is_control mi (bs ! k) \<longrightarrow>
       unat (message_iter s) = Suc (unat (message_iter s0))"
    by simp_all
  have oa: "opened_after mi bs n out k \<longleftrightarrow> message_opened s"
    using Suc.prems by (simp add: opened_after_def)
  show ?case
  proof (cases "message_opened s0")
    case True
    with Suc.IH [OF s0] obtain j where
      j: "j < k" "frame_start mi bs n out k = Some j" "unat (message_iter s0) + j < k"
         "(\<forall>i. j < i \<and> i < k \<longrightarrow> \<not> is_control mi (bs ! i)) \<longrightarrow>
            unat (message_iter s0) + j + 1 = k"
      by auto
    have "(\<forall>i. j < i \<and> i < Suc k \<longrightarrow> \<not> is_control mi (bs ! i)) \<longrightarrow>
            unat (message_iter s) + j + 1 = Suc k"
    proof
      assume a: "\<forall>i. j < i \<and> i < Suc k \<longrightarrow> \<not> is_control mi (bs ! i)"
      then have "unat (message_iter s0) + j + 1 = k" using j(4) by simp
      moreover have "\<not> is_control mi (bs ! k)" using a j(1) by simp
      ultimately show "unat (message_iter s) + j + 1 = Suc k"
        using c(4) True by simp
    qed
    then show ?thesis
      using True c(1,3) j(1,2,3) by (auto simp: frame_start_Suc)
  next
    case False
    with Suc.IH [OF s0] have none: "frame_start mi bs n out k = None" by simp
    show ?thesis
    proof (cases "message_opened s")
      case True
      then show ?thesis
        using none oa c(2) False by (simp add: frame_start_Suc)
    next
      case False
      then show ?thesis
        using none oa by (simp add: frame_start_Suc)
    qed
  qed
qed

text \<open>
  What the code after the loop computes when the window ends inside a frame, at a state
  the scan reaches: the subtraction \<open>window_size - message_iter - 1\<close> does not wrap, its
  result is never before the offset \<open>j\<close> of the opening delimiter, and it is \<open>j\<close> when no
  byte of the window after the delimiter is a control byte.
\<close>

lemma unfinished_frame_remainder:
  assumes "state_at mi bs n (initial_state mi out) (unat n) = Some s"
    and "message_opened s"
  shows "\<exists>rem j.
           ll_deserialize mi (Some bs) n (Some out) (Some r) =
             Inr (LL_STATUS_NO_ENOUGH_BYTES, Some (data_out s), Some rem) \<and>
           rem = n - message_iter s - 1 \<and>
           unat rem + unat (message_iter s) + 1 = unat n \<and>
           frame_start mi bs n out (unat n) = Some j \<and> j \<le> unat rem \<and>
           ((\<forall>i. j < i \<and> i < unat n \<longrightarrow> \<not> is_control mi (bs ! i)) \<longrightarrow> unat rem = j)"
proof -
  define rem where "rem = n - message_iter s - 1"
  from frame_start_inv [OF assms(1)] assms(2) obtain j where
    j: "frame_start mi bs n out (unat n) = Some j"
       "unat (message_iter s) + j < unat n"
       "(\<forall>i. j < i \<and> i < unat n \<longrightarrow> \<not> is_control mi (bs ! i)) \<longrightarrow>
          unat (message_iter s) + j + 1 = unat n"
    by auto
  have lt: "unat (message_iter s) < unat n" using j(2) by simp
  have u: "unat rem + unat (message_iter s) + 1 = unat n"
    unfolding rem_def using lt by (rule sub_no_underflow(1))
  have "scan mi bs n 0 (initial_state mi out) = scan mi bs n (of_nat (unat n)) s"
    using assms(1) by (rule scan_state_at)
  then have "scan mi bs n 0 (initial_state mi out) =
               Inr (LL_STATUS_NO_ENOUGH_BYTES, s\<lparr>remainder := rem\<rparr>)"
    using assms(2) by (simp add: scan_end rem_def)
  then have "ll_deserialize mi (Some bs) n (Some out) (Some r) =
             Inr (LL_STATUS_NO_ENOUGH_BYTES, Some (data_out s), Some rem)"
    by (simp add: ll_deserialize_Some)
  moreover have "j \<le> unat rem" using u j(2) by simp
  moreover have "(\<forall>i. j < i \<and> i < unat n \<longrightarrow> \<not> is_control mi (bs ! i)) \<longrightarrow> unat rem = j"
    using u j(3) by auto
  ultimately show ?thesis using u j(1) rem_def by blast
qed

text \<open>
  Claim C5 at the window \<open>AA CC BB\<close>, for a message of four bytes. The window ends inside
  the frame that starts at offset 0, and one payload byte has been decoded from two bytes
  of the window. The call returns \<open>LL_STATUS_NO_ENOUGH_BYTES\<close> with remainder
  \<open>3 - 1 - 1 = 1\<close>, which is not the offset of the start byte: scanning the longer stream
  from offset 1 finds no message, while the stream as a whole holds a complete frame.
\<close>

theorem unfinished_frame_remainder_not_frame_start:
  "ll_deserialize (example_info 4) (Some [0xAA, 0xCC, 0xBB]) 3 (Some [0, 0, 0, 0]) (Some 7) =
     Inr (LL_STATUS_NO_ENOUGH_BYTES, Some [0xBB, 0, 0, 0], Some 1) \<and>
   frame_start (example_info 4) [0xAA, 0xCC, 0xBB] 3 [0, 0, 0, 0] 3 = Some 0 \<and>
   ll_deserialize (example_info 4) (Some [0xAA, 0xCC, 0xBB, 0x11, 0x22, 0x33, 0xBB]) 7
       (Some [0, 0, 0, 0]) (Some 7) =
     Inr (LL_STATUS_SUCCESS, Some [0xBB, 0x11, 0x22, 0x33], Some 0) \<and>
   ll_deserialize (example_info 4) (Some (drop 1 [0xAA, 0xCC, 0xBB, 0x11, 0x22, 0x33, 0xBB])) 6
       (Some [0xBB, 0, 0, 0]) (Some 1) =
     Inr (LL_STATUS_NO_MESSAGE, Some [0xBB, 0, 0, 0], Some 6)"
  by code_simp

text \<open>
  Claim C6 at the frame of the payload \<open>BB 11\<close>, split after three bytes: the first call
  returns \<open>LL_STATUS_NO_ENOUGH_BYTES\<close> with remainder 1, the second call, on the window
  from offset 1, returns \<open>LL_STATUS_NO_MESSAGE\<close>, and a single call on the whole window
  returns \<open>LL_STATUS_SUCCESS\<close> with the payload.
\<close>

theorem resume_after_escape_loses_frame:
  "ll_serialize (example_info 2) (Some [0xBB, 0x11]) (Some [0, 0, 0, 0, 0]) =
     Inr (Some [0xAA, 0xCC, 0xBB, 0x11, 0xBB]) \<and>
   ll_deserialize (example_info 2) (Some (take 3 [0xAA, 0xCC, 0xBB, 0x11, 0xBB])) 3
       (Some [0, 0]) (Some 0) =
     Inr (LL_STATUS_NO_ENOUGH_BYTES, Some [0xBB, 0], Some 1) \<and>
   ll_deserialize (example_info 2) (Some (drop 1 [0xAA, 0xCC, 0xBB, 0x11, 0xBB])) 4
       (Some [0xBB, 0]) (Some 1) =
     Inr (LL_STATUS_NO_MESSAGE, Some [0xBB, 0], Some 4) \<and>
   ll_deserialize (example_info 2) (Some [0xAA, 0xCC, 0xBB, 0x11, 0xBB]) 5
       (Some [0, 0]) (Some 0) =
     Inr (LL_STATUS_SUCCESS, Some [0xBB, 0x11], Some 0)"
  by code_simp

end
